theory Spec2Isabelle
  imports Main
begin

section \<open>The snake game of \<open>src/snake/snake.c\<close>\<close>

subsection \<open>Configuration and data\<close>

text \<open>
  The macros of lines 11-12 and the capacity of the two tail arrays of line 20.
\<close>

definition WIDTH :: int where
  "WIDTH = 40"

definition HEIGHT :: int where
  "HEIGHT = 20"

definition TAIL_CAP :: nat where
  "TAIL_CAP = 100"

text \<open>Line 22: \<^verbatim>\<open>enum eDirection { STOP = 0, LEFT, RIGHT, UP, DOWN }\<close>.\<close>

datatype eDirection = STOP | LEFT | RIGHT | UP | DOWN

text \<open>
  An index outside \<open>0 .. TAIL_CAP - 1\<close> into \<^verbatim>\<open>tailX\<close> or \<^verbatim>\<open>tailY\<close> is undefined
  behaviour in C. The model stops there with an error instead of inventing a value.
\<close>

datatype error = OutOfBounds

text \<open>
  The global variables of lines 16-23, as one record. The \<^verbatim>\<open>int\<close> variables are
  modelled as unbounded integers: coordinates stay on the board, the score is ten times
  the tail length and the tail length cannot pass the array capacity without an
  out-of-bounds access, so no arithmetic of the program comes near the 32-bit limits.
  \<^verbatim>\<open>nTail\<close> is only ever reset to 0 and incremented, and it is used as a loop bound and an
  array index: it is a natural number here. The arrays are functions from the index to
  the stored value; every access is guarded by the capacity.

  The last two fields are the state of the C library's pseudo random number generator:
  \<open>rseq\<close> is the sequence of results that \<^verbatim>\<open>rand()\<close> returns after the last
  \<^verbatim>\<open>srand\<close>, and \<open>rpos\<close> counts the calls made since.
\<close>

record game =
  gameOver :: int
  score :: int
  headX :: int
  headY :: int
  foodX :: int
  foodY :: int
  tailX :: "nat \<Rightarrow> int"
  tailY :: "nat \<Rightarrow> int"
  nTail :: nat
  dir :: eDirection
  rseq :: "nat \<Rightarrow> nat"
  rpos :: nat

text \<open>
  \<^verbatim>\<open>rand()\<close> returns the next element of the sequence, a non-negative \<^verbatim>\<open>int\<close>, and
  advances the generator.
\<close>

definition rand :: "game \<Rightarrow> int \<times> game" where
  "rand g = (int (rseq g (rpos g)), g\<lparr>rpos := Suc (rpos g)\<rparr>)"

subsection \<open>\<^verbatim>\<open>isPositionOnSnake\<close> (lines 26-36)\<close>

text \<open>
  The loop \<^verbatim>\<open>for (i = 0; i < nTail; i++) if (tailX[i] == x && tailY[i] == y) return true;\<close>
  over the indices still to visit. The same loop, with the head as the position, is the
  self-collision test of lines 218-223.
\<close>

fun tail_scan :: "game \<Rightarrow> int \<Rightarrow> int \<Rightarrow> nat list \<Rightarrow> error + bool" where
  "tail_scan g x y [] = Inr False"
| "tail_scan g x y (i # rest) =
     (if TAIL_CAP \<le> i then Inl OutOfBounds
      else if tailX g i = x \<and> tailY g i = y then Inr True
      else tail_scan g x y rest)"

definition isPositionOnSnake :: "game \<Rightarrow> int \<Rightarrow> int \<Rightarrow> error + bool" where
  "isPositionOnSnake g x y =
     (if headX g = x \<and> headY g = y then Inr True
      else tail_scan g x y [0..<nTail g])"

subsection \<open>\<^verbatim>\<open>PlaceFood\<close> (lines 39-49)\<close>

text \<open>Lines 43-44: the two calls of \<^verbatim>\<open>rand()\<close> that sample a cell of the board.\<close>

definition sample_food :: "game \<Rightarrow> game" where
  "sample_food g =
     (case rand g of (r1, g1) \<Rightarrow>
        (case rand (g1\<lparr>foodX := r1 mod WIDTH + 1\<rparr>) of (r2, g2) \<Rightarrow>
           g2\<lparr>foodY := r2 mod HEIGHT + 1\<rparr>))"

text \<open>
  The \<^verbatim>\<open>do ... while\<close> loop; the second argument is \<^verbatim>\<open>attempts\<close> at the start of an
  iteration.
\<close>

function PlaceFood_loop :: "game \<Rightarrow> int \<Rightarrow> error + game" where
  "PlaceFood_loop g attempts =
     (let g' = sample_food g;
          attempts' = attempts + 1
      in if attempts' > WIDTH * HEIGHT then Inr g'
         else (case isPositionOnSnake g' (foodX g') (foodY g') of
                 Inl e \<Rightarrow> Inl e
               | Inr b \<Rightarrow> if b then PlaceFood_loop g' attempts' else Inr g'))"
  by pat_completeness auto
termination
  by (relation "measure (\<lambda>(g, attempts). nat (WIDTH * HEIGHT + 1 - attempts))") auto

declare PlaceFood_loop.simps [simp del]

definition PlaceFood :: "game \<Rightarrow> error + game" where
  "PlaceFood g = PlaceFood_loop g 0"

subsection \<open>\<^verbatim>\<open>Setup\<close> (lines 52-63)\<close>

text \<open>
  \<^verbatim>\<open>srand(time(NULL))\<close> installs a sequence that depends on the clock: it is the first
  argument. The tail arrays are not assigned.
\<close>

definition Setup :: "(nat \<Rightarrow> nat) \<Rightarrow> game \<Rightarrow> error + game" where
  "Setup rnd g =
     PlaceFood (g\<lparr>rseq := rnd, rpos := 0, gameOver := 0, dir := STOP,
                  headX := WIDTH div 2, headY := HEIGHT div 2, score := 0, nTail := 0\<rparr>)"

text \<open>The globals at program start: C initialises them to zero.\<close>

definition boot :: game where
  "boot = \<lparr>gameOver = 0, score = 0, headX = 0, headY = 0, foodX = 0, foodY = 0,
           tailX = (\<lambda>_. 0), tailY = (\<lambda>_. 0), nTail = 0, dir = STOP,
           rseq = (\<lambda>_. 0), rpos = 0\<rparr>"

subsection \<open>\<^verbatim>\<open>Input\<close> (lines 137-168)\<close>

text \<open>
  The key codes of \<^verbatim>\<open>ncurses.h\<close> (octal 0402 to 0405) and \<^verbatim>\<open>ERR\<close>, which
  \<^verbatim>\<open>getch\<close> returns in no-delay mode when no key is pending.
\<close>

definition KEY_DOWN :: int where
  "KEY_DOWN = 258"

definition KEY_UP :: int where
  "KEY_UP = 259"

definition KEY_LEFT :: int where
  "KEY_LEFT = 260"

definition KEY_RIGHT :: int where
  "KEY_RIGHT = 261"

definition ERR :: int where
  "ERR = - 1"

text \<open>The \<^verbatim>\<open>switch\<close> of lines 141-166 on one key.\<close>

definition Input_key :: "int \<Rightarrow> game \<Rightarrow> game" where
  "Input_key ch g =
     (if ch = of_char CHR ''a'' \<or> ch = of_char CHR ''A'' \<or> ch = KEY_LEFT then
        (if dir g \<noteq> RIGHT then g\<lparr>dir := LEFT\<rparr> else g)
      else if ch = of_char CHR ''d'' \<or> ch = of_char CHR ''D'' \<or> ch = KEY_RIGHT then
        (if dir g \<noteq> LEFT then g\<lparr>dir := RIGHT\<rparr> else g)
      else if ch = of_char CHR ''w'' \<or> ch = of_char CHR ''W'' \<or> ch = KEY_UP then
        (if dir g \<noteq> DOWN then g\<lparr>dir := UP\<rparr> else g)
      else if ch = of_char CHR ''s'' \<or> ch = of_char CHR ''S'' \<or> ch = KEY_DOWN then
        (if dir g \<noteq> UP then g\<lparr>dir := DOWN\<rparr> else g)
      else if ch = of_char CHR ''q'' \<or> ch = of_char CHR ''Q'' then g\<lparr>gameOver := 1\<rparr>
      else g)"

text \<open>
  The loop \<^verbatim>\<open>while ((ch = getch()) != ERR)\<close>: the first argument is the sequence of
  results of \<^verbatim>\<open>getch\<close>, the pending keys; when it is used up \<^verbatim>\<open>getch\<close> returns
  \<^verbatim>\<open>ERR\<close>.
\<close>

fun Input :: "int list \<Rightarrow> game \<Rightarrow> game" where
  "Input [] g = g"
| "Input (ch # pending) g = (if ch = ERR then g else Input pending (Input_key ch g))"

subsection \<open>\<^verbatim>\<open>Logic\<close> (lines 171-231)\<close>

text \<open>
  Lines 176-198, one axis each: the step in the current direction, the wrap to the
  opposite edge and the second pair of bounds checks.
\<close>

definition newHeadX :: "game \<Rightarrow> int" where
  "newHeadX g =
     (let x0 = headX g;
          x1 = (case dir g of LEFT \<Rightarrow> x0 - 1 | RIGHT \<Rightarrow> x0 + 1 | _ \<Rightarrow> x0);
          x2 = (if x1 > WIDTH then 1 else if x1 < 1 then WIDTH else x1);
          x3 = (if x2 < 1 then 1 else x2)
      in if x3 > WIDTH then WIDTH else x3)"

definition newHeadY :: "game \<Rightarrow> int" where
  "newHeadY g =
     (let y0 = headY g;
          y1 = (case dir g of UP \<Rightarrow> y0 - 1 | DOWN \<Rightarrow> y0 + 1 | _ \<Rightarrow> y0);
          y2 = (if y1 > HEIGHT then 1 else if y1 < 1 then HEIGHT else y1);
          y3 = (if y2 < 1 then 1 else y2)
      in if y3 > HEIGHT then HEIGHT else y3)"

text \<open>
  Lines 205-208, \<^verbatim>\<open>for (i = nTail - 1; i > 0; i--)\<close>: the second argument is \<open>i\<close>.
\<close>

fun shift_loop :: "game \<Rightarrow> nat \<Rightarrow> error + game" where
  "shift_loop g 0 = Inr g"
| "shift_loop g (Suc k) =
     (if TAIL_CAP \<le> Suc k then Inl OutOfBounds
      else shift_loop (g\<lparr>tailX := (tailX g)(Suc k := tailX g k),
                          tailY := (tailY g)(Suc k := tailY g k)\<rparr>) k)"

text \<open>Lines 204-211: the whole tail update.\<close>

definition shift_tail :: "game \<Rightarrow> error + game" where
  "shift_tail g =
     (if nTail g > 0 then
        (case shift_loop g (nTail g - 1) of
           Inl e \<Rightarrow> Inl e
         | Inr g1 \<Rightarrow> Inr (g1\<lparr>tailX := (tailX g1)(0 := headX g1),
                             tailY := (tailY g1)(0 := headY g1)\<rparr>))
      else Inr g)"

text \<open>Lines 203-215: the tail update, then the head takes the new position.\<close>

definition advance :: "game \<Rightarrow> int \<Rightarrow> int \<Rightarrow> error + game" where
  "advance g nx ny =
     (case shift_tail g of
        Inl e \<Rightarrow> Inl e
      | Inr g1 \<Rightarrow> Inr (g1\<lparr>headX := nx, headY := ny\<rparr>))"

text \<open>Lines 218-223: the loop of the self-collision test.\<close>

definition selfCollides :: "game \<Rightarrow> error + bool" where
  "selfCollides g = tail_scan g (headX g) (headY g) [0..<nTail g]"

text \<open>Lines 226-230.\<close>

definition eat :: "game \<Rightarrow> error + game" where
  "eat g = PlaceFood (g\<lparr>score := score g + 10, nTail := nTail g + 1\<rparr>)"

definition Logic :: "game \<Rightarrow> error + game" where
  "Logic g =
     (if dir g = STOP then Inr g
      else
        let nx = newHeadX g;
            ny = newHeadY g;
            willEatFood = (nx = foodX g \<and> ny = foodY g)
        in (case advance g nx ny of
              Inl e \<Rightarrow> Inl e
            | Inr g1 \<Rightarrow>
                (case selfCollides g1 of
                   Inl e \<Rightarrow> Inl e
                 | Inr hit \<Rightarrow>
                     if hit then Inr (g1\<lparr>gameOver := 1\<rparr>)
                     else if willEatFood then eat g1
                     else Inr g1)))"

subsection \<open>\<^verbatim>\<open>Draw\<close> (lines 110-134)\<close>

text \<open>
  The calls \<^verbatim>\<open>mvprintw(row, column, glyph)\<close> of lines 115-128, in the order in which they
  are made: the food, the tail segments that pass the bounds check, the head. Clearing
  the board, the borders and the score line do not read the tail arrays and are left out.
\<close>

fun Draw_tail :: "game \<Rightarrow> nat list \<Rightarrow> error + (int \<times> int \<times> char) list" where
  "Draw_tail g [] = Inr []"
| "Draw_tail g (i # rest) =
     (if TAIL_CAP \<le> i then Inl OutOfBounds
      else (case Draw_tail g rest of
              Inl e \<Rightarrow> Inl e
            | Inr out \<Rightarrow>
                Inr ((if tailX g i \<ge> 1 \<and> tailX g i \<le> WIDTH \<and> tailY g i \<ge> 1 \<and> tailY g i \<le> HEIGHT
                      then [(tailY g i, tailX g i, CHR ''o'')] else []) @ out)))"

definition Draw :: "game \<Rightarrow> error + (int \<times> int \<times> char) list" where
  "Draw g =
     (case Draw_tail g [0..<nTail g] of
        Inl e \<Rightarrow> Inl e
      | Inr segs \<Rightarrow>
          Inr ([(foodY g, foodX g, CHR ''F'')] @ segs @
               (if headX g \<ge> 1 \<and> headX g \<le> WIDTH \<and> headY g \<ge> 1 \<and> headY g \<le> HEIGHT
                then [(headY g, headX g, CHR ''O'')] else [])))"

section \<open>Notions of the specification\<close>

text \<open>
  The tail as the specification sees it: the ordered sequence of the first \<open>nTail\<close>
  slots of the two arrays, index 0 nearest the head.
\<close>

definition tail_cells :: "game \<Rightarrow> (int \<times> int) list" where
  "tail_cells g = map (\<lambda>i. (tailX g i, tailY g i)) [0..<nTail g]"

text \<open>
  The cell that \<^verbatim>\<open>PlaceFood\<close> samples when the generator stands at position \<open>p\<close>
  of the sequence \<open>rnd\<close>.
\<close>

definition cellX :: "(nat \<Rightarrow> nat) \<Rightarrow> nat \<Rightarrow> int" where
  "cellX rnd p = int (rnd p) mod WIDTH + 1"

definition cellY :: "(nat \<Rightarrow> nat) \<Rightarrow> nat \<Rightarrow> int" where
  "cellY rnd p = int (rnd (Suc p)) mod HEIGHT + 1"

text \<open>
  The state in which sample number \<open>m\<close> (counted from 0) has just been drawn and
  stored as the food position, and whether that sample lies on the snake.
\<close>

definition sampled :: "game \<Rightarrow> nat \<Rightarrow> game" where
  "sampled g m = g\<lparr>foodX := cellX (rseq g) (rpos g + 2 * m),
                    foodY := cellY (rseq g) (rpos g + 2 * m),
                    rpos := rpos g + 2 * m + 2\<rparr>"

definition sample_hit :: "game \<Rightarrow> nat \<Rightarrow> error + bool" where
  "sample_hit g m =
     isPositionOnSnake g (cellX (rseq g) (rpos g + 2 * m)) (cellY (rseq g) (rpos g + 2 * m))"

text \<open>
  One array after the tail update of a snake with \<open>n\<close> segments whose head coordinate
  was \<open>h\<close>, and the state after the whole advance step.
\<close>

definition shifted :: "nat \<Rightarrow> int \<Rightarrow> (nat \<Rightarrow> int) \<Rightarrow> nat \<Rightarrow> int" where
  "shifted n h t i = (if n = 0 \<or> n \<le> i then t i else if i = 0 then h else t (i - 1))"

definition advanced :: "game \<Rightarrow> int \<Rightarrow> int \<Rightarrow> game" where
  "advanced g nx ny =
     g\<lparr>tailX := shifted (nTail g) (headX g) (tailX g),
       tailY := shifted (nTail g) (headY g) (tailY g),
       headX := nx, headY := ny\<rparr>"

text \<open>
  The wrap of the specification, section 4.1, and the offset of one cell in a direction.
\<close>

definition wrap :: "int \<Rightarrow> int \<Rightarrow> int \<Rightarrow> int" where
  "wrap coord lo hi = (if coord > hi then lo else if coord < lo then hi else coord)"

fun dx :: "eDirection \<Rightarrow> int" where
  "dx LEFT = - 1"
| "dx RIGHT = 1"
| "dx _ = 0"

fun dy :: "eDirection \<Rightarrow> int" where
  "dy UP = - 1"
| "dy DOWN = 1"
| "dy _ = 0"

text \<open>
  The direction a key asks for (the case labels of lines 142-159), and the exact reverse
  of a direction.
\<close>

definition key_direction :: "int \<Rightarrow> eDirection option" where
  "key_direction ch =
     (if ch = of_char CHR ''a'' \<or> ch = of_char CHR ''A'' \<or> ch = KEY_LEFT then Some LEFT
      else if ch = of_char CHR ''d'' \<or> ch = of_char CHR ''D'' \<or> ch = KEY_RIGHT then Some RIGHT
      else if ch = of_char CHR ''w'' \<or> ch = of_char CHR ''W'' \<or> ch = KEY_UP then Some UP
      else if ch = of_char CHR ''s'' \<or> ch = of_char CHR ''S'' \<or> ch = KEY_DOWN then Some DOWN
      else None)"

fun reverse_of :: "eDirection \<Rightarrow> eDirection" where
  "reverse_of LEFT = RIGHT"
| "reverse_of RIGHT = LEFT"
| "reverse_of UP = DOWN"
| "reverse_of DOWN = UP"
| "reverse_of STOP = STOP"

text \<open>
  The states in which the loops of \<^verbatim>\<open>main\<close> (lines 257-298) leave the globals
  between two of the calls they make: after the first \<^verbatim>\<open>Setup\<close>; during play, after
  \<^verbatim>\<open>Input\<close> has drained the pending keys and after the \<^verbatim>\<open>Logic\<close> of a due tick,
  both only in an iteration entered with \<^verbatim>\<open>gameOver\<close> zero; and after the
  \<^verbatim>\<open>Setup\<close> of a restart, which follows a game over. A step that runs out of the
  tail arrays has undefined behaviour and leads to no state.
\<close>

inductive reachable :: "game \<Rightarrow> bool" where
  start: "Setup rnd boot = Inr g \<Longrightarrow> reachable g"
| poll: "reachable g \<Longrightarrow> gameOver g = 0 \<Longrightarrow> reachable (Input keys g)"
| tick: "reachable g \<Longrightarrow> gameOver g = 0 \<Longrightarrow> Logic (Input keys g) = Inr g' \<Longrightarrow> reachable g'"
| restart: "reachable g \<Longrightarrow> gameOver g \<noteq> 0 \<Longrightarrow> Setup rnd g = Inr g' \<Longrightarrow> reachable g'"

text \<open>
  The number of sampling attempts between two states: each attempt calls \<^verbatim>\<open>rand()\<close>
  twice.
\<close>

definition attempts_made :: "game \<Rightarrow> game \<Rightarrow> nat" where
  "attempts_made g g' = (rpos g' - rpos g) div 2"

text \<open>
  A cell of the board; the states reachable before the first restart; the states whose
  uncounted tail slots all lie off the board, as the zero-initialised arrays do; and two
  states that agree on everything but the tail arrays, where each slot either agrees or
  lies off the board in both.
\<close>

definition on_board :: "int \<Rightarrow> int \<Rightarrow> bool" where
  "on_board x y \<longleftrightarrow> 1 \<le> x \<and> x \<le> WIDTH \<and> 1 \<le> y \<and> y \<le> HEIGHT"

inductive first_run :: "game \<Rightarrow> bool" where
  start: "Setup rnd boot = Inr g \<Longrightarrow> first_run g"
| poll: "first_run g \<Longrightarrow> gameOver g = 0 \<Longrightarrow> first_run (Input keys g)"
| tick: "first_run g \<Longrightarrow> gameOver g = 0 \<Longrightarrow> Logic (Input keys g) = Inr g' \<Longrightarrow> first_run g'"

definition spare_off_board :: "game \<Rightarrow> bool" where
  "spare_off_board g \<longleftrightarrow> (\<forall>i. nTail g \<le> i \<longrightarrow> \<not> on_board (tailX g i) (tailY g i))"

definition similar :: "game \<Rightarrow> game \<Rightarrow> bool" where
  "similar g h \<longleftrightarrow>
     h = g\<lparr>tailX := tailX h, tailY := tailY h\<rparr> \<and>
     (\<forall>i. (tailX h i = tailX g i \<and> tailY h i = tailY g i) \<or>
          (\<not> on_board (tailX g i) (tailY g i) \<and> \<not> on_board (tailX h i) (tailY h i)))"

section \<open>Example states\<close>

text \<open>A head on the right edge, moving right, with an empty tail.\<close>

definition edge_game :: game where
  "edge_game = boot\<lparr>headX := 40, headY := 7, foodX := 3, foodY := 3, dir := RIGHT\<rparr>"

text \<open>A snake of three segments lying to the right of its head; slot 3 is not counted.\<close>

definition trail_game :: game where
  "trail_game = boot\<lparr>headX := 5, headY := 5,
     tailX := (\<lambda>_. 0)(0 := 6, 1 := 7, 2 := 8, 3 := 9),
     tailY := (\<lambda>_. 0)(0 := 5, 1 := 5, 2 := 5, 3 := 4),
     nTail := 3, score := 30, dir := LEFT\<rparr>"

text \<open>
  A snake curled so that a step to the left enters its own third segment; the food lies
  on the same cell.
\<close>

definition bite_game :: game where
  "bite_game = boot\<lparr>headX := 5, headY := 5, foodX := 4, foodY := 5,
     tailX := (\<lambda>_. 0)(0 := 5, 1 := 4, 2 := 4, 3 := 4),
     tailY := (\<lambda>_. 0)(0 := 6, 1 := 6, 2 := 5, 3 := 4),
     nTail := 4, score := 40, dir := LEFT\<rparr>"

text \<open>The sequence of results of \<^verbatim>\<open>rand()\<close> that starts with the given list.\<close>

definition seq_of :: "nat list \<Rightarrow> nat \<Rightarrow> nat" where
  "seq_of xs n = (if n < length xs then xs ! n else 0)"

text \<open>
  A generator that always samples the cell of the head, and one that does so once and
  then samples a free cell.
\<close>

definition stuck_game :: game where
  "stuck_game = boot\<lparr>headX := 20, headY := 10, rseq := (\<lambda>n. if even n then 19 else 9)\<rparr>"

definition retry_game :: game where
  "retry_game = boot\<lparr>headX := 20, headY := 10, rseq := seq_of [19, 9, 4, 4]\<rparr>"

text \<open>
  A first playthrough from program start: the food appears at (21, 10), the player
  presses \<^verbatim>\<open>d\<close>, the snake eats on two successive ticks, the player quits with
  \<^verbatim>\<open>q\<close>. Then a restart: the food appears at (21, 10) again, the player presses
  \<^verbatim>\<open>d\<close> and the snake eats on the first tick.
\<close>

definition first_a :: game where
  "first_a = projr (Setup (seq_of [20, 9, 21, 9, 0, 0]) boot)"

definition first_b :: game where
  "first_b = projr (Logic (Input [of_char CHR ''d''] first_a))"

definition first_c :: game where
  "first_c = projr (Logic (Input [] first_b))"

definition first_d :: game where
  "first_d = Input [of_char CHR ''q''] first_c"

definition second_a :: game where
  "second_a = projr (Setup (seq_of [20, 9, 21, 9]) first_d)"

definition second_b :: game where
  "second_b = projr (Logic (Input [of_char CHR ''d''] second_a))"

text \<open>
  Two playthroughs with the same generator and the same key \<^verbatim>\<open>s\<close>: one from program
  start, one after the restart that follows the first playthrough above.
\<close>

definition fresh_a :: game where
  "fresh_a = projr (Setup (seq_of [19, 10, 20, 9, 4, 4]) boot)"

definition stale_a :: game where
  "stale_a = projr (Setup (seq_of [19, 10, 20, 9, 4, 4]) first_d)"

definition fresh_b :: game where
  "fresh_b = projr (Logic (Input [of_char CHR ''s''] fresh_a))"

definition stale_b :: game where
  "stale_b = projr (Logic (Input [of_char CHR ''s''] stale_a))"

section \<open>Properties\<close>

subsection \<open>Scanning the tail and placing food\<close>

lemma tail_scan_cong:
  "tailX h = tailX g \<Longrightarrow> tailY h = tailY g \<Longrightarrow> tail_scan h x y js = tail_scan g x y js"
  by (induction js) auto

lemma isPositionOnSnake_cong:
  "headX h = headX g \<Longrightarrow> headY h = headY g \<Longrightarrow> nTail h = nTail g \<Longrightarrow>
   tailX h = tailX g \<Longrightarrow> tailY h = tailY g \<Longrightarrow>
   isPositionOnSnake h x y = isPositionOnSnake g x y"
  by (simp add: isPositionOnSnake_def tail_scan_cong [of h g])

lemma sample_food_sampled: "sample_food g = sampled g 0"
  by (simp add: sample_food_def rand_def sampled_def cellX_def cellY_def)

lemma sampled_sampled: "sampled (sampled g 0) m = sampled g (Suc m)"
  by (simp add: sampled_def)

lemma isPositionOnSnake_sampled: "isPositionOnSnake (sampled g m) x y = isPositionOnSnake g x y"
  by (rule isPositionOnSnake_cong) (simp_all add: sampled_def)

lemma sample_hit_sampled: "sample_hit (sampled g 0) m = sample_hit g (Suc m)"
  unfolding sample_hit_def isPositionOnSnake_sampled by (simp add: sampled_def)

lemma food_sampled_hit:
  "isPositionOnSnake (sampled g 0) (foodX (sampled g 0)) (foodY (sampled g 0)) = sample_hit g 0"
  unfolding sample_hit_def isPositionOnSnake_sampled by (simp add: sampled_def)

lemma PlaceFood_loop_unfold:
  "PlaceFood_loop g a =
     (if a + 1 > WIDTH * HEIGHT then Inr (sampled g 0)
      else (case sample_hit g 0 of
              Inl e \<Rightarrow> Inl e
            | Inr b \<Rightarrow> if b then PlaceFood_loop (sampled g 0) (a + 1) else Inr (sampled g 0)))"
  by (subst PlaceFood_loop.simps) (simp add: Let_def sample_food_sampled food_sampled_hit)

lemma PlaceFood_loop_result:
  "a \<le> WIDTH * HEIGHT \<Longrightarrow> PlaceFood_loop g a = Inr g' \<Longrightarrow>
   \<exists>m. a + int m \<le> WIDTH * HEIGHT \<and> g' = sampled g m \<and>
       (\<forall>k<m. sample_hit g k = Inr True) \<and>
       (a + int m < WIDTH * HEIGHT \<longrightarrow> sample_hit g m = Inr False)"
proof (induction g a arbitrary: g' rule: PlaceFood_loop.induct)
  case (1 g a)
  note unf = PlaceFood_loop_unfold [of g a]
  consider (cap) "a + 1 > WIDTH * HEIGHT"
    | (err) e where "\<not> a + 1 > WIDTH * HEIGHT" "sample_hit g 0 = Inl e"
    | (free) "\<not> a + 1 > WIDTH * HEIGHT" "sample_hit g 0 = Inr False"
    | (hit) "\<not> a + 1 > WIDTH * HEIGHT" "sample_hit g 0 = Inr True"
    by (cases "sample_hit g 0") auto
  then show ?case
  proof cases
    case cap
    with unf "1.prems" have "g' = sampled g 0" by simp
    with cap "1.prems" show ?thesis by (intro exI [of _ 0]) simp
  next
    case err
    with unf "1.prems" show ?thesis by simp
  next
    case free
    with unf "1.prems" have "g' = sampled g 0" by simp
    with free show ?thesis by (intro exI [of _ 0]) simp
  next
    case hit
    with unf "1.prems" have rec: "PlaceFood_loop (sampled g 0) (a + 1) = Inr g'" by simp
    have hit': "isPositionOnSnake (sample_food g) (foodX (sample_food g)) (foodY (sample_food g))
        = Inr True"
      using hit(2) by (simp add: sample_food_sampled food_sampled_hit)
    have le: "a + 1 \<le> WIDTH * HEIGHT" using hit(1) by simp
    from "1.IH" [OF refl refl hit(1) hit' _ le] rec
    obtain m where m: "a + 1 + int m \<le> WIDTH * HEIGHT" "g' = sampled (sampled g 0) m"
      "\<forall>k<m. sample_hit (sampled g 0) k = Inr True"
      "a + 1 + int m < WIDTH * HEIGHT \<longrightarrow> sample_hit (sampled g 0) m = Inr False"
      unfolding sample_food_sampled by blast
    have all: "\<forall>k<Suc m. sample_hit g k = Inr True"
    proof (intro allI impI)
      fix k assume k: "k < Suc m"
      show "sample_hit g k = Inr True"
      proof (cases k)
        case 0
        with hit(2) show ?thesis by simp
      next
        case (Suc j)
        with k m(3) have "sample_hit (sampled g 0) j = Inr True" by simp
        with Suc show ?thesis by (simp add: sample_hit_sampled)
      qed
    qed
    have "a + int (Suc m) \<le> WIDTH * HEIGHT" using m(1) by simp
    moreover have "g' = sampled g (Suc m)" using m(2) by (simp add: sampled_sampled)
    moreover have "a + int (Suc m) < WIDTH * HEIGHT \<longrightarrow> sample_hit g (Suc m) = Inr False"
      using m(4) by (simp add: sample_hit_sampled)
    ultimately show ?thesis using all by blast
  qed
qed

lemma tail_scan_in_bounds:
  "\<forall>i\<in>set js. i < TAIL_CAP \<Longrightarrow>
   tail_scan g x y js = Inr (\<exists>i\<in>set js. tailX g i = x \<and> tailY g i = y)"
  by (induction js) auto

lemma tail_scan_cells:
  assumes "nTail g \<le> TAIL_CAP"
  shows "tail_scan g x y [0..<nTail g] = Inr ((x, y) \<in> set (tail_cells g))"
proof -
  have "\<forall>i\<in>set [0..<nTail g]. i < TAIL_CAP"
    using assms by auto
  then have "tail_scan g x y [0..<nTail g]
      = Inr (\<exists>i\<in>set [0..<nTail g]. tailX g i = x \<and> tailY g i = y)"
    by (rule tail_scan_in_bounds)
  also have "(\<exists>i\<in>set [0..<nTail g]. tailX g i = x \<and> tailY g i = y)
      \<longleftrightarrow> (x, y) \<in> set (tail_cells g)"
    unfolding tail_cells_def by (simp add: image_iff) blast
  finally show ?thesis .
qed

lemma isPositionOnSnake_cells:
  "nTail g \<le> TAIL_CAP \<Longrightarrow>
   isPositionOnSnake g x y = Inr ((x, y) = (headX g, headY g) \<or> (x, y) \<in> set (tail_cells g))"
  unfolding isPositionOnSnake_def by (simp add: tail_scan_cells) blast

lemma selfCollides_cells:
  "nTail g \<le> TAIL_CAP \<Longrightarrow> selfCollides g = Inr ((headX g, headY g) \<in> set (tail_cells g))"
  by (simp add: selfCollides_def tail_scan_cells)

lemma sample_hit_cells:
  "nTail g \<le> TAIL_CAP \<Longrightarrow> \<exists>b. sample_hit g m = Inr b"
  by (simp add: sample_hit_def isPositionOnSnake_cells)

lemma nTail_sampled: "nTail (sampled g m) = nTail g"
  by (simp add: sampled_def)

lemma PlaceFood_loop_returns:
  "nTail g \<le> TAIL_CAP \<Longrightarrow> \<exists>g'. PlaceFood_loop g a = Inr g'"
proof (induction g a rule: PlaceFood_loop.induct)
  case (1 g a)
  from sample_hit_cells [OF "1.prems"] obtain b where b: "sample_hit g 0 = Inr b" ..
  show ?case
  proof (cases "a + 1 > WIDTH * HEIGHT \<or> \<not> b")
    case True
    with b show ?thesis by (subst PlaceFood_loop_unfold) auto
  next
    case False
    then have le: "\<not> a + 1 > WIDTH * HEIGHT" and hit: "sample_hit g 0 = Inr True"
      using b by auto
    have hit': "isPositionOnSnake (sample_food g) (foodX (sample_food g)) (foodY (sample_food g))
        = Inr True"
      using hit by (simp add: sample_food_sampled food_sampled_hit)
    have "\<exists>g'. PlaceFood_loop (sample_food g) (a + 1) = Inr g'"
      using "1.IH" [OF refl refl le hit'] "1.prems"
      by (simp add: sample_food_sampled nTail_sampled)
    with le hit show ?thesis
      by (subst PlaceFood_loop_unfold) (simp add: sample_food_sampled)
  qed
qed

lemma shift_loop_eq:
  "k < TAIL_CAP \<Longrightarrow>
   shift_loop g k =
     Inr (g\<lparr>tailX := (\<lambda>i. if 1 \<le> i \<and> i \<le> k then tailX g (i - 1) else tailX g i),
            tailY := (\<lambda>i. if 1 \<le> i \<and> i \<le> k then tailY g (i - 1) else tailY g i)\<rparr>)"
proof (induction k arbitrary: g)
  case 0
  have "(\<lambda>i. if 1 \<le> i \<and> i \<le> 0 then tailX g (i - 1) else tailX g i) = tailX g"
    "(\<lambda>i. if 1 \<le> i \<and> i \<le> 0 then tailY g (i - 1) else tailY g i) = tailY g"
    by (rule ext, simp)+
  then show ?case by simp
next
  case (Suc k)
  let ?g1 = "g\<lparr>tailX := (tailX g)(Suc k := tailX g k), tailY := (tailY g)(Suc k := tailY g k)\<rparr>"
  have "shift_loop g (Suc k) = shift_loop ?g1 k"
    using Suc.prems by simp
  also have "\<dots> = Inr (?g1\<lparr>tailX := (\<lambda>i. if 1 \<le> i \<and> i \<le> k then tailX ?g1 (i - 1) else tailX ?g1 i),
            tailY := (\<lambda>i. if 1 \<le> i \<and> i \<le> k then tailY ?g1 (i - 1) else tailY ?g1 i)\<rparr>)"
    using Suc.prems by (intro Suc.IH) simp
  also have "(\<lambda>i. if 1 \<le> i \<and> i \<le> k then tailX ?g1 (i - 1) else tailX ?g1 i)
      = (\<lambda>i. if 1 \<le> i \<and> i \<le> Suc k then tailX g (i - 1) else tailX g i)"
    by (rule ext) auto
  also have "(\<lambda>i. if 1 \<le> i \<and> i \<le> k then tailY ?g1 (i - 1) else tailY ?g1 i)
      = (\<lambda>i. if 1 \<le> i \<and> i \<le> Suc k then tailY g (i - 1) else tailY g i)"
    by (rule ext) auto
  finally show ?case by simp
qed

lemma shift_loop_overflow: "TAIL_CAP \<le> k \<Longrightarrow> 0 < k \<Longrightarrow> shift_loop g k = Inl OutOfBounds"
  by (cases k) simp_all

lemma shift_tail_eq:
  "nTail g \<le> TAIL_CAP \<Longrightarrow>
   shift_tail g = Inr (g\<lparr>tailX := shifted (nTail g) (headX g) (tailX g),
                         tailY := shifted (nTail g) (headY g) (tailY g)\<rparr>)"
proof (cases "nTail g")
  case 0
  have "shifted 0 (headX g) (tailX g) = tailX g" "shifted 0 (headY g) (tailY g) = tailY g"
    by (simp_all add: shifted_def fun_eq_iff)
  with 0 show ?thesis by (simp add: shift_tail_def)
next
  case (Suc n)
  assume cap: "nTail g \<le> TAIL_CAP"
  with Suc have k: "n < TAIL_CAP" by simp
  have X: "(\<lambda>i. if 1 \<le> i \<and> i \<le> n then tailX g (i - 1) else tailX g i)(0 := headX g)
      = shifted (Suc n) (headX g) (tailX g)"
    by (rule ext) (auto simp: shifted_def)
  have Y: "(\<lambda>i. if 1 \<le> i \<and> i \<le> n then tailY g (i - 1) else tailY g i)(0 := headY g)
      = shifted (Suc n) (headY g) (tailY g)"
    by (rule ext) (auto simp: shifted_def)
  have "shift_tail g = (case shift_loop g n of
           Inl e \<Rightarrow> Inl e
         | Inr g1 \<Rightarrow> Inr (g1\<lparr>tailX := (tailX g1)(0 := headX g1),
                             tailY := (tailY g1)(0 := headY g1)\<rparr>))"
    using Suc by (simp add: shift_tail_def)
  also have "\<dots> = Inr (g\<lparr>tailX := shifted (Suc n) (headX g) (tailX g),
                         tailY := shifted (Suc n) (headY g) (tailY g)\<rparr>)"
    unfolding shift_loop_eq [OF k] using X Y by simp
  finally show ?thesis using Suc by simp
qed

lemma shift_tail_overflow: "TAIL_CAP < nTail g \<Longrightarrow> shift_tail g = Inl OutOfBounds"
proof -
  assume cap: "TAIL_CAP < nTail g"
  then obtain n where n: "nTail g = Suc n" by (cases "nTail g") auto
  with cap have "TAIL_CAP \<le> n" "0 < n" by (auto simp: TAIL_CAP_def)
  then have "shift_loop g n = Inl OutOfBounds" by (rule shift_loop_overflow)
  with n show ?thesis by (simp add: shift_tail_def)
qed

lemma advance_eq: "nTail g \<le> TAIL_CAP \<Longrightarrow> advance g nx ny = Inr (advanced g nx ny)"
  by (simp add: advance_def shift_tail_eq advanced_def)

lemma advance_overflow: "TAIL_CAP < nTail g \<Longrightarrow> advance g nx ny = Inl OutOfBounds"
  by (simp add: advance_def shift_tail_overflow)

lemma tail_cells_advanced:
  "tail_cells (advanced g nx ny) =
     (if nTail g = 0 then [] else (headX g, headY g) # butlast (tail_cells g))"
proof (cases "nTail g")
  case 0
  then show ?thesis by (simp add: tail_cells_def advanced_def)
next
  case (Suc n)
  have "[0..<Suc n] = 0 # map Suc [0..<n]"
    by (simp add: upt_conv_Cons map_Suc_upt del: upt_Suc)
  then have "tail_cells (advanced g nx ny)
      = (headX g, headY g) # map (\<lambda>i. (tailX g i, tailY g i)) [0..<n]"
    using Suc by (simp add: tail_cells_def advanced_def shifted_def comp_def del: upt_Suc)
  moreover have "butlast (tail_cells g) = map (\<lambda>i. (tailX g i, tailY g i)) [0..<n]"
    using Suc by (simp add: tail_cells_def)
  ultimately show ?thesis using Suc by simp
qed

subsection \<open>The update step\<close>

lemma newHeadX_wrap: "newHeadX g = wrap (headX g + dx (dir g)) 1 WIDTH"
  by (cases "dir g") (simp_all add: newHeadX_def wrap_def WIDTH_def)

lemma newHeadY_wrap: "newHeadY g = wrap (headY g + dy (dir g)) 1 HEIGHT"
  by (cases "dir g") (simp_all add: newHeadY_def wrap_def HEIGHT_def)

lemma PlaceFood_result:
  assumes "PlaceFood g = Inr g'"
  shows "\<exists>m. g' = sampled g m"
  using PlaceFood_loop_result [of 0 g g'] assms
  by (auto simp: PlaceFood_def WIDTH_def HEIGHT_def)

lemma Logic_eq:
  assumes "dir g \<noteq> STOP" "nTail g \<le> TAIL_CAP"
  shows "Logic g =
     (if (newHeadX g, newHeadY g) \<in> set (tail_cells (advanced g (newHeadX g) (newHeadY g)))
      then Inr ((advanced g (newHeadX g) (newHeadY g))\<lparr>gameOver := 1\<rparr>)
      else if newHeadX g = foodX g \<and> newHeadY g = foodY g
      then eat (advanced g (newHeadX g) (newHeadY g))
      else Inr (advanced g (newHeadX g) (newHeadY g)))"
proof -
  let ?a = "advanced g (newHeadX g) (newHeadY g)"
  have n: "nTail ?a \<le> TAIL_CAP" using assms(2) by (simp add: advanced_def)
  have h: "headX ?a = newHeadX g" "headY ?a = newHeadY g" by (simp_all add: advanced_def)
  show ?thesis
    using assms(1) 
    by (simp add: Logic_def Let_def advance_eq [OF assms(2)] selfCollides_cells [OF n] h)
qed

lemma Logic_overflow: "dir g \<noteq> STOP \<Longrightarrow> TAIL_CAP < nTail g \<Longrightarrow> Logic g = Inl OutOfBounds"
  by (simp add: Logic_def Let_def advance_overflow)

lemma Logic_Inr_cap: "dir g \<noteq> STOP \<Longrightarrow> Logic g = Inr g' \<Longrightarrow> nTail g \<le> TAIL_CAP"
  using Logic_overflow [of g] by (cases "nTail g \<le> TAIL_CAP") auto

lemma Logic_cases:
  assumes "dir g \<noteq> STOP" "Logic g = Inr g'"
  obtains (collide) "g' = (advanced g (newHeadX g) (newHeadY g))\<lparr>gameOver := 1\<rparr>"
      "(newHeadX g, newHeadY g) \<in> set (tail_cells (advanced g (newHeadX g) (newHeadY g)))"
    | (move) "g' = advanced g (newHeadX g) (newHeadY g)"
      "(newHeadX g, newHeadY g) \<notin> set (tail_cells (advanced g (newHeadX g) (newHeadY g)))"
      "\<not> (newHeadX g = foodX g \<and> newHeadY g = foodY g)"
    | (eat) m where 
      "g' = sampled ((advanced g (newHeadX g) (newHeadY g))
               \<lparr>score := score g + 10, nTail := nTail g + 1\<rparr>) m"
      "(newHeadX g, newHeadY g) \<notin> set (tail_cells (advanced g (newHeadX g) (newHeadY g)))"
      "newHeadX g = foodX g" "newHeadY g = foodY g"
proof -
  let ?a = "advanced g (newHeadX g) (newHeadY g)"
  note eq = Logic_eq [OF assms(1) Logic_Inr_cap [OF assms]]
  show thesis
  proof (cases "(newHeadX g, newHeadY g) \<in> set (tail_cells ?a)")
    case True
    with eq assms(2) show ?thesis by (intro collide) simp_all
  next
    case False
    show ?thesis
    proof (cases "newHeadX g = foodX g \<and> newHeadY g = foodY g")
      case no: False
      with False eq assms(2) show ?thesis by (intro move) auto
    next
      case True
      with False eq assms(2) have "eat ?a = Inr g'" by simp
      then have "PlaceFood (?a\<lparr>score := score g + 10, nTail := nTail g + 1\<rparr>) = Inr g'"
        by (simp add: eat_def advanced_def)
      from PlaceFood_result [OF this] obtain m where
        "g' = sampled (?a\<lparr>score := score g + 10, nTail := nTail g + 1\<rparr>) m" ..
      with False True show ?thesis by (intro eat) simp_all
    qed
  qed
qed

lemma Logic_head:
  assumes "dir g \<noteq> STOP" "Logic g = Inr g'"
  shows "headX g' = newHeadX g \<and> headY g' = newHeadY g"
  using assms by (cases rule: Logic_cases) (simp_all add: advanced_def sampled_def)

text \<open>
  Claim C8. The coordinate that \<^verbatim>\<open>Logic\<close> computes for the head is, on each axis, the
  wrap of the moved coordinate: the minimum 1 when it exceeds the maximum, the maximum
  when it is below 1, the moved coordinate otherwise; the second pair of bounds checks
  changes nothing. A tick that returns stores exactly these coordinates in the head.
  In particular a head at \<open>(WIDTH, y)\<close> moving right goes to \<open>(1, y)\<close>, a head at
  \<open>(1, y)\<close> moving left goes to \<open>(WIDTH, y)\<close>, and the same holds on the vertical axis.
\<close>

theorem Logic_wraparound:
  "newHeadX g = wrap (headX g + dx (dir g)) 1 WIDTH \<and>
   newHeadY g = wrap (headY g + dy (dir g)) 1 HEIGHT \<and>
   (dir g \<noteq> STOP \<and> Logic g = Inr g' \<longrightarrow> headX g' = newHeadX g \<and> headY g' = newHeadY g) \<and>
   (1 \<le> headY g \<and> headY g \<le> HEIGHT \<longrightarrow>
      (dir g = RIGHT \<and> headX g = WIDTH \<longrightarrow> newHeadX g = 1 \<and> newHeadY g = headY g) \<and>
      (dir g = LEFT \<and> headX g = 1 \<longrightarrow> newHeadX g = WIDTH \<and> newHeadY g = headY g)) \<and>
   (1 \<le> headX g \<and> headX g \<le> WIDTH \<longrightarrow>
      (dir g = DOWN \<and> headY g = HEIGHT \<longrightarrow> newHeadX g = headX g \<and> newHeadY g = 1) \<and>
      (dir g = UP \<and> headY g = 1 \<longrightarrow> newHeadX g = headX g \<and> newHeadY g = HEIGHT))"
proof -
  have "dir g \<noteq> STOP \<and> Logic g = Inr g' \<longrightarrow> headX g' = newHeadX g \<and> headY g' = newHeadY g"
    using Logic_head [of g g'] by blast
  moreover have "1 \<le> headY g \<and> headY g \<le> HEIGHT \<longrightarrow>
      (dir g = RIGHT \<and> headX g = WIDTH \<longrightarrow> newHeadX g = 1 \<and> newHeadY g = headY g) \<and>
      (dir g = LEFT \<and> headX g = 1 \<longrightarrow> newHeadX g = WIDTH \<and> newHeadY g = headY g)"
    by (simp add: newHeadX_wrap newHeadY_wrap wrap_def WIDTH_def)
  moreover have "1 \<le> headX g \<and> headX g \<le> WIDTH \<longrightarrow>
      (dir g = DOWN \<and> headY g = HEIGHT \<longrightarrow> newHeadX g = headX g \<and> newHeadY g = 1) \<and>
      (dir g = UP \<and> headY g = 1 \<longrightarrow> newHeadX g = headX g \<and> newHeadY g = HEIGHT)"
    by (simp add: newHeadX_wrap newHeadY_wrap wrap_def HEIGHT_def)
  ultimately show ?thesis
    using newHeadX_wrap [of g] newHeadY_wrap [of g] by blast
qed

lemma edge_game_Logic: "Logic edge_game = Inr (edge_game\<lparr>headX := 1\<rparr>)"
  apply (simp add: Logic_def edge_game_def boot_def Let_def newHeadX_def newHeadY_def WIDTH_def HEIGHT_def
    advance_def shift_tail_def selfCollides_def)
  done

theorem Logic_wraparound_witness:
  "dir edge_game = RIGHT \<and> headX edge_game = WIDTH \<and> headY edge_game = 7 \<and>
   Logic edge_game = Inr (edge_game\<lparr>headX := 1\<rparr>) \<and>
   headX (edge_game\<lparr>headX := 1\<rparr>) = 1 \<and> headY (edge_game\<lparr>headX := 1\<rparr>) = 7 \<and>
   newHeadX edge_game = 1 \<and> newHeadY edge_game = 7"
  using Logic_wraparound [of edge_game "edge_game\<lparr>headX := 1\<rparr>"] edge_game_Logic
  by (simp add: edge_game_def boot_def WIDTH_def HEIGHT_def)

subsection \<open>The advance step\<close>

text \<open>
  Claim C4. The advance step of a snake within the array capacity returns and changes
  only the head and the two tail arrays. For a non-empty tail, slot 0 receives the head
  position of the state before the step, every slot \<open>i\<close> with \<open>1 \<le> i < nTail\<close>
  receives the former content of slot \<open>i - 1\<close>, and the slots from \<open>nTail\<close> on are not
  written. For an empty tail no slot is written. The head then holds the new position.
\<close>

theorem advance_shifts_tail:
  assumes "nTail g \<le> TAIL_CAP"
  shows "\<exists>a. advance g nx ny = Inr a \<and>
     a = g\<lparr>tailX := tailX a, tailY := tailY a, headX := nx, headY := ny\<rparr> \<and>
     (\<forall>i. tailX a i = (if 0 < nTail g \<and> i < nTail g
                         then (if i = 0 then headX g else tailX g (i - 1)) else tailX g i)) \<and>
     (\<forall>i. tailY a i = (if 0 < nTail g \<and> i < nTail g
                         then (if i = 0 then headY g else tailY g (i - 1)) else tailY g i))"
proof (intro exI conjI)
  show "advance g nx ny = Inr (advanced g nx ny)"
    using assms by (rule advance_eq)
qed (auto simp: advanced_def shifted_def)

theorem advance_shifts_tail_witness:
  "nTail trail_game \<le> TAIL_CAP \<and>
   (\<exists>a. advance trail_game 4 5 = Inr a \<and> (headX a, headY a) = (4, 5) \<and>
      (tailX a 0, tailY a 0) = (5, 5) \<and> (tailX a 1, tailY a 1) = (6, 5) \<and>
      (tailX a 2, tailY a 2) = (7, 5) \<and> (tailX a 3, tailY a 3) = (9, 4))"
proof -
  have cap: "nTail trail_game \<le> TAIL_CAP"
    by (simp add: trail_game_def TAIL_CAP_def)
  from advance_shifts_tail [OF cap, of 4 5] obtain a where a: "advance trail_game 4 5 = Inr a"
    "a = trail_game\<lparr>tailX := tailX a, tailY := tailY a, headX := 4, headY := 5\<rparr>"
    "\<forall>i. tailX a i = (if 0 < nTail trail_game \<and> i < nTail trail_game
                         then (if i = 0 then headX trail_game else tailX trail_game (i - 1))
                         else tailX trail_game i)"
    "\<forall>i. tailY a i = (if 0 < nTail trail_game \<and> i < nTail trail_game
                         then (if i = 0 then headY trail_game else tailY trail_game (i - 1))
                         else tailY trail_game i)"
    by blast
  have "headX a = 4" "headY a = 5"
    by (subst a(2), simp)+
  moreover have "tailX a 0 = 5" "tailX a 1 = 6" "tailX a 2 = 7" "tailX a 3 = 9"
    by (simp_all add: a(3) trail_game_def boot_def)
  moreover have "tailY a 0 = 5" "tailY a 1 = 5" "tailY a 2 = 5" "tailY a 3 = 4"
    by (simp_all add: a(4) trail_game_def boot_def)
  ultimately show ?thesis using cap a(1) by simp
qed

subsection \<open>A fatal collision ends the tick\<close>

text \<open>
  Claim C3. When the head, after the advance step, lies on a tail segment, \<^verbatim>\<open>Logic\<close>
  returns with \<^verbatim>\<open>gameOver\<close> set and without eating: score, tail length, food position
  and random generator are those of the state before the tick, also when the new head
  position is the food position.
\<close>

theorem Logic_collision_skips_eating:
  assumes "dir g \<noteq> STOP"
    and "advance g (newHeadX g) (newHeadY g) = Inr a"
    and "selfCollides a = Inr True"
  shows "\<exists>g'. Logic g = Inr g' \<and> gameOver g' = 1 \<and> score g' = score g \<and>
     nTail g' = nTail g \<and> foodX g' = foodX g \<and> foodY g' = foodY g \<and> rpos g' = rpos g"
proof -
  have cap: "nTail g \<le> TAIL_CAP"
    using assms(2) advance_overflow [of g] by (cases "nTail g \<le> TAIL_CAP") auto
  with assms(2) have a: "a = advanced g (newHeadX g) (newHeadY g)"
    by (simp add: advance_eq)
  have "Logic g = Inr (a\<lparr>gameOver := 1\<rparr>)"
    using assms by (simp add: Logic_def Let_def)
  then show ?thesis
    by (simp add: a advanced_def)
qed

lemma bite_cells: "tail_cells bite_game = [(5, 6), (4, 6), (4, 5), (4, 4)]"
  by code_simp

theorem Logic_collision_skips_eating_witness:
  "dir bite_game \<noteq> STOP \<and>
   advance bite_game (newHeadX bite_game) (newHeadY bite_game) = Inr (advanced bite_game 4 5) \<and>
   selfCollides (advanced bite_game 4 5) = Inr True \<and>
   (newHeadX bite_game, newHeadY bite_game) = (foodX bite_game, foodY bite_game) \<and>
   (\<exists>g'. Logic bite_game = Inr g' \<and> gameOver g' = 1 \<and> score g' = 40 \<and>
      nTail g' = 4 \<and> foodX g' = 4 \<and> foodY g' = 5)"
proof -
  have d: "dir bite_game \<noteq> STOP" by (simp add: bite_game_def)
  have cap: "nTail bite_game \<le> TAIL_CAP" by (simp add: bite_game_def TAIL_CAP_def)
  have nh: "newHeadX bite_game = 4" "newHeadY bite_game = 5"
    by (simp_all add: newHeadX_def newHeadY_def bite_game_def boot_def WIDTH_def HEIGHT_def)
  have adv: "advance bite_game (newHeadX bite_game) (newHeadY bite_game)
      = Inr (advanced bite_game 4 5)"
    unfolding nh using cap by (rule advance_eq)
  have cap': "nTail (advanced bite_game 4 5) \<le> TAIL_CAP"
    using cap by (simp add: advanced_def)
  have hit: "selfCollides (advanced bite_game 4 5) = Inr True"
    unfolding selfCollides_cells [OF cap'] tail_cells_advanced bite_cells
    by (simp add: advanced_def bite_game_def)
  have vals: "score bite_game = 40" "nTail bite_game = 4" "foodX bite_game = 4"
    "foodY bite_game = 5"
    by (simp_all add: bite_game_def)
  from Logic_collision_skips_eating [OF d adv hit]
  have "\<exists>g'. Logic bite_game = Inr g' \<and> gameOver g' = 1 \<and> score g' = 40 \<and>
      nTail g' = 4 \<and> foodX g' = 4 \<and> foodY g' = 5"
    unfolding vals by blast
  with d adv hit nh vals show ?thesis by simp
qed

subsection \<open>The direction rule of \<^verbatim>\<open>Input\<close>\<close>

lemmas key_codes = KEY_DOWN_def KEY_UP_def KEY_LEFT_def KEY_RIGHT_def ERR_def

lemma Input_key_via_direction:
  "Input_key ch g =
     (case key_direction ch of
        Some d \<Rightarrow> if dir g = reverse_of d then g else g\<lparr>dir := d\<rparr>
      | None \<Rightarrow> if ch = of_char CHR ''q'' \<or> ch = of_char CHR ''Q'' then g\<lparr>gameOver := 1\<rparr> else g)"
  unfolding Input_key_def key_direction_def
  by (simp del: of_char_Char of_char_of)

lemma key_direction_not_ERR: "key_direction ch = Some d \<Longrightarrow> ch \<noteq> ERR"
  unfolding key_direction_def by (rule notI) (simp add: key_codes)

lemma key_direction_not_STOP: "key_direction ch = Some d \<Longrightarrow> d \<noteq> STOP"
  by (auto simp: key_direction_def split: if_splits)

text \<open>
  Claim C7. A key that asks for direction \<open>d\<close> leaves the state as it is when the stored
  direction is the exact reverse of \<open>d\<close>, and otherwise overwrites the stored direction
  with \<open>d\<close> and changes nothing else. So the key is accepted if and only if the stored
  direction is not its reverse; a repeat of the stored direction and any key pressed
  while the direction is \<open>STOP\<close> are accepted.
\<close>

theorem Input_key_direction_rule:
  assumes "key_direction ch = Some d"
  shows "Input_key ch g = (if dir g = reverse_of d then g else g\<lparr>dir := d\<rparr>) \<and>
     (dir (Input_key ch g) = d \<longleftrightarrow> dir g \<noteq> reverse_of d) \<and>
     (dir g = STOP \<or> dir g = d \<longrightarrow> dir (Input_key ch g) = d)"
proof -
  have "d \<noteq> STOP" using assms by (rule key_direction_not_STOP)
  then have "reverse_of d \<noteq> d" "reverse_of d \<noteq> STOP" by (cases d; simp)+
  then show ?thesis using assms by (auto simp: Input_key_via_direction)
qed

theorem Input_key_direction_rule_witness:
  "key_direction KEY_LEFT = Some LEFT \<and>
   Input_key KEY_LEFT (boot\<lparr>dir := RIGHT\<rparr>) = boot\<lparr>dir := RIGHT\<rparr> \<and>
   Input_key KEY_LEFT (boot\<lparr>dir := UP\<rparr>) = boot\<lparr>dir := LEFT\<rparr> \<and>
   dir (Input_key KEY_LEFT boot) = LEFT"
proof -
  have k: "key_direction KEY_LEFT = Some LEFT"
    by (simp add: key_direction_def key_codes)
  show ?thesis
    using k Input_key_direction_rule [OF k, of "boot\<lparr>dir := RIGHT\<rparr>"]
      Input_key_direction_rule [OF k, of "boot\<lparr>dir := UP\<rparr>"]
      Input_key_direction_rule [OF k, of boot]
    by (simp add: boot_def)
qed

text \<open>
  Claim C10. The keys drained by one call of \<^verbatim>\<open>Input\<close> are applied one after the
  other, each to the state the previous one left, so each is checked against the
  direction stored at that moment. With the stored direction \<open>RIGHT\<close>, a key for \<open>UP\<close>
  followed by a key for \<open>LEFT\<close> leaves the direction \<open>LEFT\<close>: the reverse of the
  direction of the last move, within one poll.
\<close>

theorem Input_drains_against_stored_direction:
  assumes "dir g = RIGHT" and "key_direction k1 = Some UP" and "key_direction k2 = Some LEFT"
  shows "Input [k1, k2] g = Input_key k2 (Input_key k1 g) \<and> dir (Input_key k1 g) = UP \<and>
     dir (Input [k1, k2] g) = LEFT"
  using assms by (simp add: key_direction_not_ERR Input_key_via_direction)

theorem Input_drains_against_stored_direction_witness:
  "dir (boot\<lparr>dir := RIGHT\<rparr>) = RIGHT \<and> key_direction KEY_UP = Some UP \<and>
   key_direction (of_char CHR ''a'') = Some LEFT \<and>
   dir (Input [KEY_UP, of_char CHR ''a''] (boot\<lparr>dir := RIGHT\<rparr>)) = LEFT"
proof -
  have d: "dir (boot\<lparr>dir := RIGHT\<rparr>) = RIGHT" by simp
  have k1: "key_direction KEY_UP = Some UP" by (simp add: key_direction_def key_codes)
  have k2: "key_direction (of_char CHR ''a'') = Some LEFT" by (simp add: key_direction_def)
  from Input_drains_against_stored_direction [OF d k1 k2] d k1 k2 show ?thesis by blast
qed

subsection \<open>Food placement and its attempt cap\<close>

lemma PlaceFood_returns: "nTail g \<le> TAIL_CAP \<Longrightarrow> \<exists>g'. PlaceFood g = Inr g'"
  unfolding PlaceFood_def by (rule PlaceFood_loop_returns)

lemma PlaceFood_characterised:
  assumes "nTail g \<le> TAIL_CAP"
  shows "\<exists>m. PlaceFood g = Inr (sampled g m) \<and> int m \<le> WIDTH * HEIGHT \<and>
     (\<forall>k<m. sample_hit g k = Inr True) \<and>
     (int m < WIDTH * HEIGHT \<longrightarrow> sample_hit g m = Inr False)"
proof -
  from PlaceFood_returns [OF assms] obtain g' where g': "PlaceFood g = Inr g'" ..
  then have "PlaceFood_loop g 0 = Inr g'" by (simp add: PlaceFood_def)
  from PlaceFood_loop_result [OF _ this] obtain m where
    "0 + int m \<le> WIDTH * HEIGHT" "g' = sampled g m" "\<forall>k<m. sample_hit g k = Inr True"
    "0 + int m < WIDTH * HEIGHT \<longrightarrow> sample_hit g m = Inr False"
    by (auto simp: WIDTH_def HEIGHT_def)
  with g' show ?thesis by (intro exI [of _ m]) simp
qed

lemma attempts_made_sampled: "attempts_made g (sampled g m) = m + 1"
  by (simp add: attempts_made_def sampled_def)

lemma retry_hits: "sample_hit retry_game 0 = Inr True" "sample_hit retry_game 1 = Inr False"
  by code_simp+

lemma retry_cap: "nTail retry_game \<le> TAIL_CAP"
  by (simp add: retry_game_def boot_def)

lemma stuck_hits: "sample_hit stuck_game k = Inr True"
  by (simp add: sample_hit_def isPositionOnSnake_def stuck_game_def boot_def cellX_def cellY_def
      WIDTH_def HEIGHT_def)

lemma stuck_PlaceFood: "PlaceFood stuck_game = Inr (sampled stuck_game 800)"
proof -
  have "nTail stuck_game \<le> TAIL_CAP" by (simp add: stuck_game_def boot_def)
  from PlaceFood_characterised [OF this] obtain m where m:
    "PlaceFood stuck_game = Inr (sampled stuck_game m)" "int m \<le> WIDTH * HEIGHT"
    "int m < WIDTH * HEIGHT \<longrightarrow> sample_hit stuck_game m = Inr False"
    by blast
  from m(3) have "\<not> int m < WIDTH * HEIGHT" by (simp add: stuck_hits)
  with m(2) have "m = 800" by (simp add: WIDTH_def HEIGHT_def)
  with m(1) show ?thesis by simp
qed

text \<open>
  Claim C6, as stated, fails: when every sample lies on the snake the loop draws
  \<open>WIDTH * HEIGHT + 1\<close> samples, one more than the claimed bound, because the counter is
  compared after the sample has been drawn and with \<^verbatim>\<open>>\<close>.
\<close>

theorem PlaceFood_attempts_counterexample:
  "PlaceFood stuck_game = Inr (sampled stuck_game 800) \<and>
   int (attempts_made stuck_game (sampled stuck_game 800)) = WIDTH * HEIGHT + 1 \<and>
   \<not> int (attempts_made stuck_game (sampled stuck_game 800)) \<le> WIDTH * HEIGHT"
  using stuck_PlaceFood
  by (simp add: attempts_made_sampled WIDTH_def HEIGHT_def)

text \<open>
  Claim C6, amended. For a snake within the array capacity \<^verbatim>\<open>PlaceFood\<close> returns after
  \<open>m + 1\<close> sampling attempts with \<open>m + 1 \<le> WIDTH * HEIGHT + 1\<close>; the food is the last
  sample drawn, all samples before it lie on the snake, and a loop that stops before the
  cap stops on a free cell. If each of the first \<open>WIDTH * HEIGHT\<close> samples lies on the
  snake, the sample drawn next is returned without being tested.
\<close>

theorem PlaceFood_attempt_cap:
  assumes "nTail g \<le> TAIL_CAP"
  shows "\<exists>m. PlaceFood g = Inr (sampled g m) \<and>
     attempts_made g (sampled g m) = m + 1 \<and> int (m + 1) \<le> WIDTH * HEIGHT + 1 \<and>
     (\<forall>k<m. sample_hit g k = Inr True) \<and>
     (int m < WIDTH * HEIGHT \<longrightarrow> sample_hit g m = Inr False) \<and>
     ((\<forall>k. int k < WIDTH * HEIGHT \<longrightarrow> sample_hit g k = Inr True) \<longrightarrow> int m = WIDTH * HEIGHT)"
proof -
  from PlaceFood_characterised [OF assms] obtain m where m:
    "PlaceFood g = Inr (sampled g m)" "int m \<le> WIDTH * HEIGHT"
    "\<forall>k<m. sample_hit g k = Inr True"
    "int m < WIDTH * HEIGHT \<longrightarrow> sample_hit g m = Inr False"
    by blast
  have "int m = WIDTH * HEIGHT"
    if all: "\<forall>k. int k < WIDTH * HEIGHT \<longrightarrow> sample_hit g k = Inr True"
  proof (rule ccontr)
    assume "int m \<noteq> WIDTH * HEIGHT"
    with m(2) have lt: "int m < WIDTH * HEIGHT" by simp
    with m(4) all show False by auto
  qed
  with m show ?thesis
    by (intro exI [of _ m]) (simp add: attempts_made_sampled)
qed

theorem PlaceFood_attempt_cap_witness:
  "nTail retry_game \<le> TAIL_CAP \<and> PlaceFood retry_game = Inr (sampled retry_game 1) \<and>
   attempts_made retry_game (sampled retry_game 1) = 2 \<and>
   (foodX (sampled retry_game 1), foodY (sampled retry_game 1)) = (5, 5)"
proof -
  from PlaceFood_attempt_cap [OF retry_cap] obtain m where m:
    "PlaceFood retry_game = Inr (sampled retry_game m)"
    "attempts_made retry_game (sampled retry_game m) = m + 1"
    "\<forall>k<m. sample_hit retry_game k = Inr True"
    "int m < WIDTH * HEIGHT \<longrightarrow> sample_hit retry_game m = Inr False"
    by blast
  have "m \<noteq> 0"
  proof
    assume "m = 0"
    with m(4) have "sample_hit retry_game 0 = Inr False"
      by (simp add: WIDTH_def HEIGHT_def)
    with retry_hits(1) show False by simp
  qed
  moreover have "\<not> 1 < m"
    using m(3) retry_hits(2) by auto
  ultimately have "m = 1" by simp
  moreover have "(foodX (sampled retry_game 1), foodY (sampled retry_game 1)) = (5, 5)"
    by code_simp
  ultimately show ?thesis using m(1,2) retry_cap by simp
qed

text \<open>
  Claim C5, as stated, fails: a free cell on the board is not enough. With a generator
  that keeps sampling the cell of the head, the cell (1, 1) is free and the food is
  placed on the head.
\<close>

theorem PlaceFood_on_head_counterexample:
  "PlaceFood stuck_game = Inr (sampled stuck_game 800) \<and>
   isPositionOnSnake stuck_game 1 1 = Inr False \<and>
   foodX (sampled stuck_game 800) = headX (sampled stuck_game 800) \<and>
   foodY (sampled stuck_game 800) = headY (sampled stuck_game 800)"
  using stuck_PlaceFood
  by (simp add: sampled_def stuck_game_def boot_def cellX_def cellY_def WIDTH_def HEIGHT_def
      isPositionOnSnake_def)

text \<open>
  Claim C5, amended. For a snake within the array capacity, if one of the first
  \<open>WIDTH * HEIGHT + 1\<close> sampled cells is not on the snake, then \<^verbatim>\<open>PlaceFood\<close> returns
  and the food is neither on the head nor on any of the \<open>nTail\<close> tail entries, whatever
  the sequence of samples.
\<close>

theorem PlaceFood_avoids_snake:
  assumes "nTail g \<le> TAIL_CAP"
    and "\<exists>k. int k \<le> WIDTH * HEIGHT \<and> sample_hit g k = Inr False"
  shows "\<exists>g'. PlaceFood g = Inr g' \<and>
     isPositionOnSnake g' (foodX g') (foodY g') = Inr False \<and>
     (foodX g', foodY g') \<noteq> (headX g', headY g') \<and>
     (foodX g', foodY g') \<notin> set (tail_cells g')"
proof -
  from PlaceFood_characterised [OF assms(1)] obtain m where m:
    "PlaceFood g = Inr (sampled g m)" "int m \<le> WIDTH * HEIGHT"
    "\<forall>k<m. sample_hit g k = Inr True"
    "int m < WIDTH * HEIGHT \<longrightarrow> sample_hit g m = Inr False"
    by blast
  from assms(2) obtain k where k: "int k \<le> WIDTH * HEIGHT" "sample_hit g k = Inr False"
    by blast
  have "\<not> k < m" using m(3) k(2) by auto
  have free: "sample_hit g m = Inr False"
  proof (cases "int m < WIDTH * HEIGHT")
    case True
    with m(4) show ?thesis by simp
  next
    case False
    with m(2) k(1) \<open>\<not> k < m\<close> have "k = m" by simp
    with k(2) show ?thesis by simp
  qed
  let ?g = "sampled g m"
  have cap: "nTail ?g \<le> TAIL_CAP" using assms(1) by (simp add: nTail_sampled)
  have "isPositionOnSnake ?g (foodX ?g) (foodY ?g) = sample_hit g m"
    unfolding sample_hit_def isPositionOnSnake_sampled by (simp add: sampled_def)
  with free have f: "isPositionOnSnake ?g (foodX ?g) (foodY ?g) = Inr False" by simp
  then have "(foodX ?g, foodY ?g) \<noteq> (headX ?g, headY ?g) \<and>
      (foodX ?g, foodY ?g) \<notin> set (tail_cells ?g)"
    unfolding isPositionOnSnake_cells [OF cap] by simp
  with m(1) f show ?thesis by blast
qed

theorem PlaceFood_avoids_snake_witness:
  "nTail retry_game \<le> TAIL_CAP \<and>
   (\<exists>k. int k \<le> WIDTH * HEIGHT \<and> sample_hit retry_game k = Inr False) \<and>
   (\<exists>g'. PlaceFood retry_game = Inr g' \<and>
     isPositionOnSnake g' (foodX g') (foodY g') = Inr False \<and>
     (foodX g', foodY g') \<noteq> (headX g', headY g') \<and>
     (foodX g', foodY g') \<notin> set (tail_cells g'))"
proof -
  have free: "\<exists>k. int k \<le> WIDTH * HEIGHT \<and> sample_hit retry_game k = Inr False"
    using retry_hits(2) by (intro exI [of _ 1]) (simp add: WIDTH_def HEIGHT_def)
  from PlaceFood_avoids_snake [OF retry_cap free] retry_cap free show ?thesis by blast
qed

subsection \<open>Reachable states\<close>

lemma Input_key_snake:
  "score (Input_key ch g) = score g \<and> nTail (Input_key ch g) = nTail g \<and>
   headX (Input_key ch g) = headX g \<and> headY (Input_key ch g) = headY g \<and>
   tailX (Input_key ch g) = tailX g \<and> tailY (Input_key ch g) = tailY g"
  by (simp add: Input_key_via_direction split: option.split)

lemma Input_snake:
  "score (Input keys g) = score g \<and> nTail (Input keys g) = nTail g \<and>
   headX (Input keys g) = headX g \<and> headY (Input keys g) = headY g \<and>
   tailX (Input keys g) = tailX g \<and> tailY (Input keys g) = tailY g"
  by (induction keys arbitrary: g) (simp_all add: Input_key_snake)

lemma Setup_result:
  assumes "Setup rnd g = Inr g'"
  shows "\<exists>m. g' = sampled (g\<lparr>rseq := rnd, rpos := 0, gameOver := 0, dir := STOP,
                  headX := WIDTH div 2, headY := HEIGHT div 2, score := 0, nTail := 0\<rparr>) m"
  using assms unfolding Setup_def by (rule PlaceFood_result)

lemma Logic_score_invariant:
  assumes "Logic g = Inr g'" and "int (nTail g) * 10 = score g"
  shows "int (nTail g') * 10 = score g'"
proof (cases "dir g = STOP")
  case True
  with assms show ?thesis by (simp add: Logic_def)
next
  case False
  from False assms(1) show ?thesis
    using assms(2) by (cases rule: Logic_cases) (simp_all add: advanced_def sampled_def)
qed

subsection \<open>Playthroughs\<close>

lemma Inr_projr: "\<not> isl r \<Longrightarrow> r = Inr (projr r)"
  by (cases r) simp_all

lemma first_a_Setup: "Setup (seq_of [20, 9, 21, 9, 0, 0]) boot = Inr first_a"
  unfolding first_a_def by (rule Inr_projr) code_simp

lemma first_b_Logic: "Logic (Input [of_char CHR ''d''] first_a) = Inr first_b"
  unfolding first_b_def by (rule Inr_projr) code_simp

lemma first_c_Logic: "Logic (Input [] first_b) = Inr first_c"
  unfolding first_c_def by (rule Inr_projr) code_simp

lemma second_a_Setup: "Setup (seq_of [20, 9, 21, 9]) first_d = Inr second_a"
  unfolding second_a_def by (rule Inr_projr) code_simp

lemma second_b_Logic: "Logic (Input [of_char CHR ''d''] second_a) = Inr second_b"
  unfolding second_b_def by (rule Inr_projr) code_simp

lemma fresh_a_Setup: "Setup (seq_of [19, 10, 20, 9, 4, 4]) boot = Inr fresh_a"
  unfolding fresh_a_def by (rule Inr_projr) code_simp

lemma stale_a_Setup: "Setup (seq_of [19, 10, 20, 9, 4, 4]) first_d = Inr stale_a"
  unfolding stale_a_def by (rule Inr_projr) code_simp

lemma fresh_b_Logic: "Logic (Input [of_char CHR ''s''] fresh_a) = Inr fresh_b"
  unfolding fresh_b_def by (rule Inr_projr) code_simp

lemma stale_b_Logic: "Logic (Input [of_char CHR ''s''] stale_a) = Inr stale_b"
  unfolding stale_b_def by (rule Inr_projr) code_simp

lemma reachable_first_a: "reachable first_a"
  using first_a_Setup by (rule reachable.start)

lemma reachable_first_b: "reachable first_b"
proof (rule reachable.tick [OF reachable_first_a _ first_b_Logic])
  show "gameOver first_a = 0" by code_simp
qed

lemma reachable_first_c: "reachable first_c"
proof (rule reachable.tick [OF reachable_first_b _ first_c_Logic])
  show "gameOver first_b = 0" by code_simp
qed

lemma reachable_first_d: "reachable first_d"
  unfolding first_d_def
proof (rule reachable.poll [OF reachable_first_c])
  show "gameOver first_c = 0" by code_simp
qed

lemma first_d_over: "gameOver first_d \<noteq> 0"
  by code_simp

lemma reachable_second_a: "reachable second_a"
  using reachable_first_d first_d_over second_a_Setup by (rule reachable.restart)

lemma reachable_second_b: "reachable second_b"
proof (rule reachable.tick [OF reachable_second_a _ second_b_Logic])
  show "gameOver second_a = 0" by code_simp
qed

lemma reachable_fresh_a: "reachable fresh_a"
  using fresh_a_Setup by (rule reachable.start)

lemma reachable_stale_a: "reachable stale_a"
  using reachable_first_d first_d_over stale_a_Setup by (rule reachable.restart)

text \<open>
  Claim C2. In every reachable state, after the first \<^verbatim>\<open>Setup\<close>, after any number of
  polls and ticks and after any number of restarts, ten times the tail length is the
  score.
\<close>

theorem score_is_ten_times_tail:
  "reachable g \<Longrightarrow> int (nTail g) * 10 = score g"
proof (induction rule: reachable.induct)
  case (start rnd g)
  from Setup_result [OF start] show ?case by (auto simp: sampled_def)
next
  case (poll g keys)
  then show ?case by (simp add: Input_snake)
next
  case (tick g keys g')
  have "int (nTail (Input keys g)) * 10 = score (Input keys g)"
    using tick.IH by (simp add: Input_snake)
  with tick.hyps(3) show ?case by (rule Logic_score_invariant)
next
  case (restart g rnd g')
  from Setup_result [OF restart.hyps(3)] show ?case by (auto simp: sampled_def)
qed

theorem score_is_ten_times_tail_witness:
  "reachable first_c \<and> nTail first_c = 2 \<and> score first_c = 20 \<and>
   int (nTail first_c) * 10 = score first_c"
proof -
  have "nTail first_c = 2 \<and> score first_c = 20" by code_simp
  with reachable_first_c score_is_ten_times_tail [OF reachable_first_c] show ?thesis by simp
qed

subsection \<open>The first playthrough\<close>

text \<open>
  Before the first restart the uncounted slots of the tail arrays hold (0, 0), which is
  off the board, the head is on the board, and while \<^verbatim>\<open>gameOver\<close> is zero the head is
  on none of the \<open>nTail\<close> tail entries.
\<close>

lemma newHead_on_board: "on_board (newHeadX g) (newHeadY g)"
  by (simp add: on_board_def newHeadX_def newHeadY_def Let_def WIDTH_def HEIGHT_def)

lemma first_run_reachable: "first_run g \<Longrightarrow> reachable g"
  by (induction rule: first_run.induct) (auto intro: reachable.intros)

lemma Input_gameOver: "gameOver (Input keys g) = 0 \<Longrightarrow> gameOver g = 0"
proof (induction keys arbitrary: g)
  case Nil
  then show ?case by simp
next
  case (Cons ch keys)
  show ?case
  proof (cases "ch = ERR")
    case True
    with Cons.prems show ?thesis by simp
  next
    case False
    with Cons have "gameOver (Input_key ch g) = 0" by simp
    then show ?thesis
      by (simp add: Input_key_via_direction split: option.splits if_splits)
  qed
qed

lemma tail_cells_cong:
  "nTail h = nTail g \<Longrightarrow> tailX h = tailX g \<Longrightarrow> tailY h = tailY g \<Longrightarrow> tail_cells h = tail_cells g"
  by (simp add: tail_cells_def)

lemma Logic_keeps_clean:
  assumes L: "Logic g = Inr g'"
    and hb: "on_board (headX g) (headY g)"
    and sp: "spare_off_board g"
    and nt: "(headX g, headY g) \<notin> set (tail_cells g)"
  shows "on_board (headX g') (headY g') \<and> spare_off_board g' \<and>
     (gameOver g' = 0 \<longrightarrow> (headX g', headY g') \<notin> set (tail_cells g'))"
proof (cases "dir g = STOP")
  case True
  with L have "g' = g" by (simp add: Logic_def)
  with hb sp nt show ?thesis by simp
next
  case False
  let ?a = "advanced g (newHeadX g) (newHeadY g)"
  have spa: "\<And>i. nTail g \<le> i \<Longrightarrow> \<not> on_board (tailX ?a i) (tailY ?a i)"
    using sp by (simp add: spare_off_board_def advanced_def shifted_def)
  from False L show ?thesis
  proof (cases rule: Logic_cases)
    case collide
    then show ?thesis
      using newHead_on_board [of g] spa
      by (simp add: spare_off_board_def advanced_def)
  next
    case move
    have "headX g' = newHeadX g" "headY g' = newHeadY g" "nTail g' = nTail g"
      by (simp_all add: move(1) advanced_def)
    then show ?thesis
      using newHead_on_board [of g] spa move by (simp add: spare_off_board_def)
  next
    case (eat m)
    let ?e = "?a\<lparr>score := score g + 10, nTail := nTail g + 1\<rparr>"
    have h: "headX g' = newHeadX g" "headY g' = newHeadY g" "nTail g' = Suc (nTail g)"
      "tailX g' = tailX ?a" "tailY g' = tailY ?a"
      by (simp_all add: eat(1) sampled_def advanced_def)
    have cells: "tail_cells g' = tail_cells ?a @ [(tailX ?a (nTail g), tailY ?a (nTail g))]"
      by (simp add: tail_cells_def h) (simp add: advanced_def)
    have "\<not> on_board (tailX ?a (nTail g)) (tailY ?a (nTail g))"
      by (rule spa) simp
    with newHead_on_board [of g]
    have "(newHeadX g, newHeadY g) \<noteq> (tailX ?a (nTail g), tailY ?a (nTail g))"
      by auto
    with eat(2) have "(headX g', headY g') \<notin> set (tail_cells g')"
      by (simp add: cells h)
    moreover have "spare_off_board g'"
      using spa by (simp add: spare_off_board_def h)
    ultimately show ?thesis
      using newHead_on_board [of g] by (simp add: h)
  qed
qed

lemma first_run_clean:
  "first_run g \<Longrightarrow>
   on_board (headX g) (headY g) \<and> spare_off_board g \<and>
   (gameOver g = 0 \<longrightarrow> (headX g, headY g) \<notin> set (tail_cells g))"
proof (induction rule: first_run.induct)
  case (start rnd g)
  from Setup_result [OF start] obtain m where
    "g = sampled (boot\<lparr>rseq := rnd, rpos := 0, gameOver := 0, dir := STOP,
                  headX := WIDTH div 2, headY := HEIGHT div 2, score := 0, nTail := 0\<rparr>) m" ..
  then show ?case
    by (simp add: sampled_def boot_def on_board_def spare_off_board_def tail_cells_def
        WIDTH_def HEIGHT_def)
next
  case (poll g keys)
  have "tail_cells (Input keys g) = tail_cells g"
    by (rule tail_cells_cong) (simp_all add: Input_snake)
  with poll show ?case
    using Input_gameOver [of keys g] by (simp add: Input_snake spare_off_board_def)
next
  case (tick g keys g')
  have cells: "tail_cells (Input keys g) = tail_cells g"
    by (rule tail_cells_cong) (simp_all add: Input_snake)
  show ?case
  proof (rule Logic_keeps_clean [OF tick.hyps(3)])
    show "on_board (headX (Input keys g)) (headY (Input keys g))"
      using tick.IH by (simp add: Input_snake)
    show "spare_off_board (Input keys g)"
      using tick.IH by (simp add: Input_snake spare_off_board_def)
    show "(headX (Input keys g), headY (Input keys g)) \<notin> set (tail_cells (Input keys g))"
      using tick.IH tick.hyps(2) by (simp add: Input_snake cells)
  qed
qed

subsection \<open>Tail slots off the board are not observed\<close>

text \<open>
  \<^verbatim>\<open>Logic\<close> and \<^verbatim>\<open>Draw\<close> do not tell apart two states that differ only in tail slots
  lying off the board in both: food samples and the new head are on the board, and
  \<^verbatim>\<open>Draw\<close> skips segments off the board.
\<close>

lemma similar_fields:
  assumes "similar g h"
  shows "gameOver h = gameOver g" "score h = score g" "headX h = headX g" "headY h = headY g"
    "foodX h = foodX g" "foodY h = foodY g" "nTail h = nTail g" "dir h = dir g"
    "rseq h = rseq g" "rpos h = rpos g"
proof -
  from assms have eq: "h = g\<lparr>tailX := tailX h, tailY := tailY h\<rparr>"
    by (simp add: similar_def)
  show "gameOver h = gameOver g" "score h = score g" "headX h = headX g" "headY h = headY g"
    "foodX h = foodX g" "foodY h = foodY g" "nTail h = nTail g" "dir h = dir g"
    "rseq h = rseq g" "rpos h = rpos g"
    by (subst eq, simp)+
qed

lemma similar_slot:
  "similar g h \<Longrightarrow> on_board x y \<Longrightarrow>
   (tailX h i = x \<and> tailY h i = y) \<longleftrightarrow> (tailX g i = x \<and> tailY g i = y)"
  unfolding similar_def by metis

lemma similar_cells:
  assumes "similar g h" "on_board x y"
  shows "(x, y) \<in> set (tail_cells h) \<longleftrightarrow> (x, y) \<in> set (tail_cells g)"
proof -
  have "(x, y) \<in> set (tail_cells h) \<longleftrightarrow> (\<exists>i<nTail g. tailX h i = x \<and> tailY h i = y)"
    by (auto simp: tail_cells_def similar_fields(7) [OF assms(1)])
  also have "\<dots> \<longleftrightarrow> (\<exists>i<nTail g. tailX g i = x \<and> tailY g i = y)"
    using similar_slot [OF assms] by simp
  also have "\<dots> \<longleftrightarrow> (x, y) \<in> set (tail_cells g)"
    by (auto simp: tail_cells_def)
  finally show ?thesis .
qed

lemma similarI:
  assumes "gameOver h = gameOver g" "score h = score g" "headX h = headX g" "headY h = headY g"
    "foodX h = foodX g" "foodY h = foodY g" "nTail h = nTail g" "dir h = dir g"
    "rseq h = rseq g" "rpos h = rpos g" "game.more h = game.more g"
    and "\<And>i. (tailX h i = tailX g i \<and> tailY h i = tailY g i) \<or>
          (\<not> on_board (tailX g i) (tailY g i) \<and> \<not> on_board (tailX h i) (tailY h i))"
  shows "similar g h"
proof -
  have "h = g\<lparr>tailX := tailX h, tailY := tailY h\<rparr>"
    by (rule game.equality) (simp_all add: assms(1-11))
  with assms(12) show ?thesis by (simp add: similar_def)
qed

lemma similar_more: "similar g h \<Longrightarrow> game.more h = game.more g"
  unfolding similar_def by (elim conjE, erule ssubst) simp

lemma similar_advanced:
  assumes "similar g h"
  shows "similar (advanced g nx ny) (advanced h nx ny)"
proof (rule similarI)
  fix i
  note f = similar_fields [OF assms]
  from assms have slots: "\<And>j. (tailX h j = tailX g j \<and> tailY h j = tailY g j) \<or>
      (\<not> on_board (tailX g j) (tailY g j) \<and> \<not> on_board (tailX h j) (tailY h j))"
    by (simp add: similar_def)
  show "(tailX (advanced h nx ny) i = tailX (advanced g nx ny) i \<and>
         tailY (advanced h nx ny) i = tailY (advanced g nx ny) i) \<or>
        (\<not> on_board (tailX (advanced g nx ny) i) (tailY (advanced g nx ny) i) \<and>
         \<not> on_board (tailX (advanced h nx ny) i) (tailY (advanced h nx ny) i))"
    using slots [of i] slots [of "i - 1"] by (simp add: advanced_def shifted_def f)
qed (simp_all add: advanced_def similar_fields [OF assms] similar_more [OF assms])

lemma cell_on_board: "on_board (cellX rnd p) (cellY rnd p)"
proof -
  have "0 \<le> int (rnd p) mod 40" "int (rnd p) mod 40 < 40"
    "0 \<le> int (rnd (Suc p)) mod 20" "int (rnd (Suc p)) mod 20 < 20"
    by simp_all
  then show ?thesis
    unfolding on_board_def cellX_def cellY_def WIDTH_def HEIGHT_def by linarith
qed

lemma similar_sample_hit:
  assumes "similar g h" "nTail g \<le> TAIL_CAP"
  shows "sample_hit h k = sample_hit g k"
proof -
  note f = similar_fields [OF assms(1)]
  have cap: "nTail h \<le> TAIL_CAP" using assms(2) by (simp add: f)
  show ?thesis
    unfolding sample_hit_def isPositionOnSnake_cells [OF cap] isPositionOnSnake_cells [OF assms(2)]
    by (simp add: f similar_cells [OF assms(1) cell_on_board])
qed

lemma similar_sampled: "similar g h \<Longrightarrow> similar (sampled g m) (sampled h m)"
  by (rule similarI)
    (simp_all add: sampled_def similar_fields similar_more, simp add: similar_def)

lemma similar_PlaceFood:
  assumes "similar g h" "nTail g \<le> TAIL_CAP"
  shows "\<exists>m. PlaceFood g = Inr (sampled g m) \<and> PlaceFood h = Inr (sampled h m)"
proof -
  have cap: "nTail h \<le> TAIL_CAP" using assms by (simp add: similar_fields)
  note hit = similar_sample_hit [OF assms]
  from PlaceFood_characterised [OF assms(2)] obtain m where m:
    "PlaceFood g = Inr (sampled g m)" "int m \<le> WIDTH * HEIGHT"
    "\<forall>k<m. sample_hit g k = Inr True"
    "int m < WIDTH * HEIGHT \<longrightarrow> sample_hit g m = Inr False"
    by blast
  from PlaceFood_characterised [OF cap] obtain n where n:
    "PlaceFood h = Inr (sampled h n)" "int n \<le> WIDTH * HEIGHT"
    "\<forall>k<n. sample_hit g k = Inr True"
    "int n < WIDTH * HEIGHT \<longrightarrow> sample_hit g n = Inr False"
    unfolding hit by blast
  have "\<not> m < n"
  proof
    assume "m < n"
    with n(2,3) m(4) show False by auto
  qed
  moreover have "\<not> n < m"
  proof
    assume "n < m"
    with m(2,3) n(4) show False by auto
  qed
  ultimately have "n = m" by simp
  with m(1) n(1) show ?thesis by blast
qed

lemma similar_newHead: "similar g h \<Longrightarrow> newHeadX h = newHeadX g \<and> newHeadY h = newHeadY g"
  by (simp add: newHeadX_def newHeadY_def similar_fields)

lemma similar_Logic:
  assumes sim: "similar g h" and cap: "nTail g < TAIL_CAP"
  shows "\<exists>g' h'. Logic g = Inr g' \<and> Logic h = Inr h' \<and> similar g' h'"
proof (cases "dir g = STOP")
  case True
  with sim show ?thesis by (auto simp: Logic_def similar_fields)
next
  case False
  note f = similar_fields [OF sim]
  note nh = similar_newHead [OF sim]
  let ?a = "advanced g (newHeadX g) (newHeadY g)"
  let ?b = "advanced h (newHeadX g) (newHeadY g)"
  have ab: "similar ?a ?b" using sim by (rule similar_advanced)
  have capg: "nTail g \<le> TAIL_CAP" and caph: "nTail h \<le> TAIL_CAP"
    using cap by (simp_all add: f)
  have dh: "dir h \<noteq> STOP" using False by (simp add: f)
  have Lg: "Logic g =
     (if (newHeadX g, newHeadY g) \<in> set (tail_cells ?a) then Inr (?a\<lparr>gameOver := 1\<rparr>)
      else if newHeadX g = foodX g \<and> newHeadY g = foodY g then eat ?a else Inr ?a)"
    using Logic_eq [OF False capg] .
  have Lh: "Logic h =
     (if (newHeadX g, newHeadY g) \<in> set (tail_cells ?a) then Inr (?b\<lparr>gameOver := 1\<rparr>)
      else if newHeadX g = foodX g \<and> newHeadY g = foodY g then eat ?b else Inr ?b)"
    using Logic_eq [OF dh caph] similar_cells [OF ab newHead_on_board [of g]]
    by (simp add: nh f)
  show ?thesis
  proof (cases "(newHeadX g, newHeadY g) \<in> set (tail_cells ?a)")
    case True
    have "similar (?a\<lparr>gameOver := 1\<rparr>) (?b\<lparr>gameOver := 1\<rparr>)"
      by (rule similarI) (use ab in \<open>simp_all add: similar_fields similar_more, simp add: similar_def\<close>)
    with True Lg Lh show ?thesis by simp
  next
    case no: False
    show ?thesis
    proof (cases "newHeadX g = foodX g \<and> newHeadY g = foodY g")
      case False
      with no Lg Lh ab show ?thesis by auto
    next
      case True
      let ?e = "?a\<lparr>score := score ?a + 10, nTail := nTail ?a + 1\<rparr>"
      let ?f = "?b\<lparr>score := score ?b + 10, nTail := nTail ?b + 1\<rparr>"
      have ef: "similar ?e ?f"
        by (rule similarI) (use ab in \<open>simp_all add: similar_fields similar_more, simp add: similar_def\<close>)
      have "nTail ?e \<le> TAIL_CAP" using cap by (simp add: advanced_def)
      from similar_PlaceFood [OF ef this] obtain m where
        "PlaceFood ?e = Inr (sampled ?e m)" "PlaceFood ?f = Inr (sampled ?f m)" by blast
      with no True Lg Lh similar_sampled [OF ef, of m] show ?thesis
        by (auto simp: eat_def)
    qed
  qed
qed

lemma similar_Draw_tail:
  assumes "similar g h" "\<forall>i\<in>set js. i < TAIL_CAP"
  shows "Draw_tail h js = Draw_tail g js"
  using assms(2)
proof (induction js)
  case Nil
  then show ?case by simp
next
  case (Cons i js)
  from assms(1) have "(tailX h i = tailX g i \<and> tailY h i = tailY g i) \<or>
      (\<not> on_board (tailX g i) (tailY g i) \<and> \<not> on_board (tailX h i) (tailY h i))"
    by (simp add: similar_def)
  with Cons show ?case by (auto simp: on_board_def split: sum.splits)
qed

lemma similar_Draw:
  assumes "similar g h" "nTail g \<le> TAIL_CAP"
  shows "Draw h = Draw g"
proof -
  have "\<forall>i\<in>set [0..<nTail g]. i < TAIL_CAP" using assms(2) by auto
  from similar_Draw_tail [OF assms(1) this] show ?thesis
    by (simp add: Draw_def similar_fields [OF assms(1)] split: sum.splits)
qed

text \<open>
  Claim C1 against the code. \<^verbatim>\<open>Setup\<close> resets \<^verbatim>\<open>nTail\<close> but leaves the tail arrays as
  the previous playthrough filled them, and eating counts slot \<open>nTail\<close> as a segment
  before anything is stored in it. After the restart of the playthrough above, the tick
  on which the snake eats at (21, 10) ends without a game over in a state whose only
  tail segment is the cell of the head.
\<close>

theorem restart_leaves_segment_under_head:
  "reachable second_b \<and> gameOver second_b = 0 \<and> nTail second_b = 1 \<and>
   (headX second_b, headY second_b) = (21, 10) \<and>
   tail_cells second_b = [(21, 10)] \<and>
   (headX second_b, headY second_b) \<in> set (tail_cells second_b)"
proof -
  have "gameOver second_b = 0 \<and> nTail second_b = 1 \<and>
   (headX second_b, headY second_b) = (21, 10) \<and>
   tail_cells second_b = [(21, 10)] \<and>
   (headX second_b, headY second_b) \<in> set (tail_cells second_b)"
    by code_simp
  with reachable_second_b show ?thesis by simp
qed

lemma Setup_fields:
  assumes "Setup rnd g = Inr g'"
  shows "gameOver g' = 0 \<and> score g' = 0 \<and> headX g' = WIDTH div 2 \<and> headY g' = HEIGHT div 2 \<and>
     nTail g' = 0 \<and> dir g' = STOP \<and> rseq g' = rnd \<and> tailX g' = tailX g \<and> tailY g' = tailY g \<and>
     game.more g' = game.more g"
  using Setup_result [OF assms] by (auto simp: sampled_def)

lemma stale_a_differs_in_tail_only:
  "stale_a = fresh_a\<lparr>tailX := tailX stale_a, tailY := tailY stale_a\<rparr>"
proof (rule game.equality)
  show "foodX stale_a = foodX (fresh_a\<lparr>tailX := tailX stale_a, tailY := tailY stale_a\<rparr>)"
    "foodY stale_a = foodY (fresh_a\<lparr>tailX := tailX stale_a, tailY := tailY stale_a\<rparr>)"
    "rpos stale_a = rpos (fresh_a\<lparr>tailX := tailX stale_a, tailY := tailY stale_a\<rparr>)"
    by code_simp+
qed (simp_all add: Setup_fields [OF stale_a_Setup] Setup_fields [OF fresh_a_Setup])

text \<open>
  Claim C9 against the code. The two playthroughs start in states that differ in the
  tail arrays only, with no segment counted. After the same key and one tick the food
  lies at (21, 10) in the one and at (5, 5) in the other, because the slot counted by
  eating still holds (21, 10) from the earlier playthrough and \<^verbatim>\<open>isPositionOnSnake\<close>
  rejects that sample; \<^verbatim>\<open>Draw\<close> prints a segment at (21, 10), where the snake of
  this playthrough has never been.
\<close>

theorem stale_slot_changes_food_and_render:
  "reachable fresh_a \<and> reachable stale_a \<and>
   stale_a = fresh_a\<lparr>tailX := tailX stale_a, tailY := tailY stale_a\<rparr> \<and>
   nTail fresh_a = 0 \<and>
   Logic (Input [of_char CHR ''s''] fresh_a) = Inr fresh_b \<and>
   Logic (Input [of_char CHR ''s''] stale_a) = Inr stale_b \<and>
   (foodX fresh_b, foodY fresh_b) = (21, 10) \<and>
   (foodX stale_b, foodY stale_b) = (5, 5) \<and>
   Draw fresh_b = Inr [(10, 21, CHR ''F''), (11, 20, CHR ''O'')] \<and>
   Draw stale_b = Inr [(5, 5, CHR ''F''), (10, 21, CHR ''o''), (11, 20, CHR ''O'')]"
proof -
  have "nTail fresh_a = 0 \<and>
   (foodX fresh_b, foodY fresh_b) = (21, 10) \<and>
   (foodX stale_b, foodY stale_b) = (5, 5) \<and>
   Draw fresh_b = Inr [(10, 21, CHR ''F''), (11, 20, CHR ''O'')] \<and>
   Draw stale_b = Inr [(5, 5, CHR ''F''), (10, 21, CHR ''o''), (11, 20, CHR ''O'')]"
    by code_simp
  with reachable_fresh_a reachable_stale_a stale_a_differs_in_tail_only fresh_b_Logic
    stale_b_Logic
  show ?thesis by blast
qed

end
